theory Spec2Isabelle
  imports Main "HOL-Library.Word" "HOL-Library.AList"
begin

section \<open>The IDL type universe\<close>

text \<open>
  \<^verbatim>\<open>cpp_codegen.py\<close> inspects the classes of the \<^verbatim>\<open>idl\<close> module through
  \<^verbatim>\<open>type(ty) is idl.TyInterface\<close> and its siblings, and reads the fields \<^verbatim>\<open>attrs\<close>,
  \<^verbatim>\<open>tys\<close>, \<^verbatim>\<open>element_ty\<close>, \<^verbatim>\<open>name\<close>, \<^verbatim>\<open>resolved_ty\<close> and \<^verbatim>\<open>lazy\<close>. A type object is a
  handle (its identity); the object store maps a handle to the object's class and
  fields, so that a cyclic type graph is an ordinary store. The dispatch of
  \<^verbatim>\<open>TypeVisitor.visit\<close> names five classes; \<^verbatim>\<open>idl.TyNone\<close> is the sixth, which it only marks
  as visited. An enumeration's values are not read by this code.
\<close>


type_synonym ty = nat

record attr =
  name :: string
  resolved_ty :: ty
  lazy :: bool

datatype ty_node =
    TyInterface string "attr list"
  | Alt "ty list"
  | TyEnum string
  | TyPrimitive string
  | TyFrozenArray ty
  | TyNone

text \<open>Exceptions raised by the code are values.\<close>

datatype error = NotImplementedError | KeyError | AttributeError | AssertionError

section \<open>\<^verbatim>\<open>TypeVisitor\<close>\<close>

text \<open>
  The five \<^verbatim>\<open>visit_*_type\<close> methods are what a subclass overrides. A hook takes the
  subclass's own state and returns the new one, or raises; \<open>None\<close> is a hook that
  does not return.
\<close>

record 's hooks =
  visit_interface_type :: "ty \<Rightarrow> 's \<Rightarrow> (error + 's) option"
  visit_alt_type :: "ty \<Rightarrow> 's \<Rightarrow> (error + 's) option"
  visit_enum_type :: "ty \<Rightarrow> 's \<Rightarrow> (error + 's) option"
  visit_primitive_type :: "ty \<Rightarrow> 's \<Rightarrow> (error + 's) option"
  visit_frozen_array_type :: "ty \<Rightarrow> 's \<Rightarrow> (error + 's) option"

record 's visitor =
  visited_types :: "ty set"
  sub :: 's

text \<open>
  \<^verbatim>\<open>visit\<close> recurses through the type graph; the first argument bounds the depth of
  the recursion, and \<open>None\<close> is a traversal that needs more. \<open>visit_each\<close> is
  the \<^verbatim>\<open>for\<close> loop over \<^verbatim>\<open>ty.attrs\<close> or \<^verbatim>\<open>ty.tys\<close>; an exception leaves the loop.
\<close>

fun visit :: "nat \<Rightarrow> (ty \<Rightarrow> ty_node) \<Rightarrow> 's hooks \<Rightarrow> ty \<Rightarrow> 's visitor \<Rightarrow> (error + 's visitor) option"
and visit_each :: "nat \<Rightarrow> (ty \<Rightarrow> ty_node) \<Rightarrow> 's hooks \<Rightarrow> ty list \<Rightarrow> 's visitor \<Rightarrow> (error + 's visitor) option"
where
  "visit 0 H hk t v = None"
| "visit (Suc n) H hk t v =
    (if t \<in> visited_types v then Some (Inr v)
     else let v1 = v\<lparr>visited_types := insert t (visited_types v)\<rparr> in
       case H t of
         TyInterface nm attrs \<Rightarrow>
           (case visit_interface_type hk t (sub v1) of
              None \<Rightarrow> None
            | Some (Inl e) \<Rightarrow> Some (Inl e)
            | Some (Inr s) \<Rightarrow> visit_each n H hk (map resolved_ty attrs) (v1\<lparr>sub := s\<rparr>))
       | Alt tys \<Rightarrow>
           (case visit_alt_type hk t (sub v1) of
              None \<Rightarrow> None
            | Some (Inl e) \<Rightarrow> Some (Inl e)
            | Some (Inr s) \<Rightarrow> visit_each n H hk tys (v1\<lparr>sub := s\<rparr>))
       | TyEnum nm \<Rightarrow>
           (case visit_enum_type hk t (sub v1) of
              None \<Rightarrow> None
            | Some (Inl e) \<Rightarrow> Some (Inl e)
            | Some (Inr s) \<Rightarrow> Some (Inr (v1\<lparr>sub := s\<rparr>)))
       | TyPrimitive nm \<Rightarrow>
           (case visit_primitive_type hk t (sub v1) of
              None \<Rightarrow> None
            | Some (Inl e) \<Rightarrow> Some (Inl e)
            | Some (Inr s) \<Rightarrow> Some (Inr (v1\<lparr>sub := s\<rparr>)))
       | TyFrozenArray el \<Rightarrow>
           (case visit_frozen_array_type hk t (sub v1) of
              None \<Rightarrow> None
            | Some (Inl e) \<Rightarrow> Some (Inl e)
            | Some (Inr s) \<Rightarrow> visit n H hk el (v1\<lparr>sub := s\<rparr>))
       | TyNone \<Rightarrow> Some (Inr v1))"
| "visit_each n H hk [] v = Some (Inr v)"
| "visit_each n H hk (t # ts) v =
    (case visit n H hk t v of
       None \<Rightarrow> None
     | Some (Inl e) \<Rightarrow> Some (Inl e)
     | Some (Inr v') \<Rightarrow> visit_each n H hk ts v')"


text \<open>The types \<^verbatim>\<open>visit\<close> recurses into from a type, and the edges of the type graph.\<close>

fun children :: "ty_node \<Rightarrow> ty list" where
  "children (TyInterface nm attrs) = map resolved_ty attrs"
| "children (Alt tys) = tys"
| "children (TyFrozenArray el) = [el]"
| "children (TyEnum nm) = []"
| "children (TyPrimitive nm) = []"
| "children TyNone = []"

definition hooks_total :: "'s hooks \<Rightarrow> bool" where
  "hooks_total hk \<longleftrightarrow>
     (\<forall>t s. visit_interface_type hk t s \<noteq> None \<and> visit_alt_type hk t s \<noteq> None \<and>
            visit_enum_type hk t s \<noteq> None \<and> visit_primitive_type hk t s \<noteq> None \<and>
            visit_frozen_array_type hk t s \<noteq> None)"

text \<open>The hook that the \<^verbatim>\<open>if\<close>/\<^verbatim>\<open>elif\<close> chain of \<^verbatim>\<open>visit\<close> selects.\<close>

fun dispatch :: "'s hooks \<Rightarrow> ty_node \<Rightarrow> ty \<Rightarrow> 's \<Rightarrow> (error + 's) option" where
  "dispatch hk (TyInterface nm attrs) t s = visit_interface_type hk t s"
| "dispatch hk (Alt tys) t s = visit_alt_type hk t s"
| "dispatch hk (TyEnum nm) t s = visit_enum_type hk t s"
| "dispatch hk (TyPrimitive nm) t s = visit_primitive_type hk t s"
| "dispatch hk (TyFrozenArray el) t s = visit_frozen_array_type hk t s"
| "dispatch hk TyNone t s = Some (Inr s)"

definition edges :: "(ty \<Rightarrow> ty_node) \<Rightarrow> (ty \<times> ty) set" where
  "edges H = {(a, b). b \<in> set (children (H a))}"

text \<open>A subclass whose hooks append the type they are called on to a list.\<close>

definition log_hooks :: "ty list hooks" where
  "log_hooks =
     \<lparr>visit_interface_type = (\<lambda>t s. Some (Inr (s @ [t]))),
      visit_alt_type = (\<lambda>t s. Some (Inr (s @ [t]))),
      visit_enum_type = (\<lambda>t s. Some (Inr (s @ [t]))),
      visit_primitive_type = (\<lambda>t s. Some (Inr (s @ [t]))),
      visit_frozen_array_type = (\<lambda>t s. Some (Inr (s @ [t])))\<rparr>"

text \<open>The base class: every hook raises \<^verbatim>\<open>NotImplementedError\<close>; \<^verbatim>\<open>__init__\<close> starts with no visited type.\<close>

definition TypeVisitor_hooks :: "'s hooks" where
  "TypeVisitor_hooks =
     \<lparr>visit_interface_type = (\<lambda>t s. Some (Inl NotImplementedError)),
      visit_alt_type = (\<lambda>t s. Some (Inl NotImplementedError)),
      visit_enum_type = (\<lambda>t s. Some (Inl NotImplementedError)),
      visit_primitive_type = (\<lambda>t s. Some (Inl NotImplementedError)),
      visit_frozen_array_type = (\<lambda>t s. Some (Inl NotImplementedError))\<rparr>"

definition TypeVisitor :: "'s \<Rightarrow> 's visitor" where
  "TypeVisitor s = \<lparr>visited_types = {}, sub = s\<rparr>"

text \<open>A cyclic type graph: Script \<rightarrow> FrozenArray \<rightarrow> Alt \<rightarrow> Script, and a primitive.\<close>

definition example_types :: "ty \<Rightarrow> ty_node" where
  "example_types t =
     (if t = 0 then TyInterface ''Script'' [\<lparr>name = ''statements'', resolved_ty = 1, lazy = False\<rparr>]
      else if t = 1 then TyFrozenArray 2
      else if t = 2 then Alt [0, 3]
      else if t = 3 then TyPrimitive ''string''
      else TyNone)"


section \<open>\<^verbatim>\<open>CppTypeMacroGenerator\<close>\<close>




fun split :: "char \<Rightarrow> string \<Rightarrow> string list" where
  "split sep [] = [[]]"
| "split sep (c # cs) =
     (if c = sep then [] # split sep cs
      else case split sep cs of [] \<Rightarrow> [[c]] | p # ps \<Rightarrow> (c # p) # ps)"


















section \<open>Properties of the traversal\<close>

lemma visit_each_single:
  "visit_each n H hk [t] v = visit n H hk t v"
  by (simp split: option.splits sum.splits)

lemma visit_unfold:
  "visit (Suc n) H hk t v =
     (if t \<in> visited_types v then Some (Inr v)
      else case dispatch hk (H t) t (sub v) of
             None \<Rightarrow> None
           | Some (Inl e) \<Rightarrow> Some (Inl e)
           | Some (Inr s) \<Rightarrow>
               visit_each n H hk (children (H t))
                 (v\<lparr>visited_types := insert t (visited_types v), sub := s\<rparr>))"
proof (cases "H t")
  case (TyFrozenArray el)
  have "visit_each n H hk [el] w = visit n H hk el w" for w
    by (rule visit_each_single)
  with TyFrozenArray show ?thesis
    by (simp add: Let_def split: option.splits sum.splits)
qed (simp_all add: Let_def split: option.splits sum.splits)


declare visit.simps(2) [simp del]

lemma visit_success_induct [consumes 0, case_names skip enter nil cons]:
  assumes skip: "\<And>t v. t \<in> visited_types v \<Longrightarrow> P t v v"
    and enter: "\<And>t v s v'. t \<notin> visited_types v \<Longrightarrow> dispatch hk (H t) t (sub v) = Some (Inr s) \<Longrightarrow>
        Q (children (H t)) (v\<lparr>visited_types := insert t (visited_types v), sub := s\<rparr>) v' \<Longrightarrow> P t v v'"
    and nil: "\<And>v. Q [] v v"
    and cons: "\<And>t ts v b v'. P t v b \<Longrightarrow> Q ts b v' \<Longrightarrow> Q (t # ts) v v'"
  shows "(\<forall>t v v'. visit n H hk t v = Some (Inr v') \<longrightarrow> P t v v') \<and>
         (\<forall>ts v v'. visit_each n H hk ts v = Some (Inr v') \<longrightarrow> Q ts v v')"
proof (induction n)
  case 0
  have "visit_each 0 H hk ts v = Some (Inr v') \<Longrightarrow> Q ts v v'" for ts v v'
    by (cases ts) (simp_all add: nil)
  then show ?case by simp
next
  case (Suc n)
  have P: "P t v v'" if "visit (Suc n) H hk t v = Some (Inr v')" for t v v'
  proof (cases "t \<in> visited_types v")
    case True
    with that have "v' = v" by (simp add: visit_unfold)
    with True show ?thesis by (simp add: skip)
  next
    case False
    with that obtain s where s: "dispatch hk (H t) t (sub v) = Some (Inr s)"
      and r: "visit_each n H hk (children (H t))
                (v\<lparr>visited_types := insert t (visited_types v), sub := s\<rparr>) = Some (Inr v')"
      by (auto simp: visit_unfold split: option.splits sum.splits)
    from Suc r have "Q (children (H t)) (v\<lparr>visited_types := insert t (visited_types v), sub := s\<rparr>) v'"
      by blast
    with False s show ?thesis by (rule enter)
  qed
  have Q: "visit_each (Suc n) H hk ts v = Some (Inr v') \<Longrightarrow> Q ts v v'" for ts v v'
  proof (induction ts arbitrary: v)
    case Nil
    then show ?case by (simp add: nil)
  next
    case (Cons t ts)
    from Cons.prems obtain b where b: "visit (Suc n) H hk t v = Some (Inr b)"
      and r: "visit_each (Suc n) H hk ts b = Some (Inr v')"
      by (auto split: option.splits sum.splits)
    from P[OF b] Cons.IH[OF r] show ?case by (rule cons)
  qed
  from P Q show ?case by blast
qed

lemma visit_mono:
  "(\<forall>t v v'. visit n H hk t v = Some (Inr v') \<longrightarrow>
       visited_types v \<subseteq> visited_types v' \<and> t \<in> visited_types v') \<and>
   (\<forall>ts v v'. visit_each n H hk ts v = Some (Inr v') \<longrightarrow>
       visited_types v \<subseteq> visited_types v' \<and> set ts \<subseteq> visited_types v')"
  by (rule visit_success_induct) auto

lemma visit_closes:
  "(\<forall>t v v'. visit n H hk t v = Some (Inr v') \<longrightarrow>
       (visited_types v \<subseteq> visited_types v' \<and> t \<in> visited_types v') \<and>
       (\<forall>u \<in> visited_types v' - visited_types v. set (children (H u)) \<subseteq> visited_types v')) \<and>
   (\<forall>ts v v'. visit_each n H hk ts v = Some (Inr v') \<longrightarrow>
       (visited_types v \<subseteq> visited_types v' \<and> set ts \<subseteq> visited_types v') \<and>
       (\<forall>u \<in> visited_types v' - visited_types v. set (children (H u)) \<subseteq> visited_types v'))"
  by (rule visit_success_induct) (auto; blast)+

lemma visit_within_reach:
  "(\<forall>t v v'. visit n H hk t v = Some (Inr v') \<longrightarrow>
       visited_types v' \<subseteq> visited_types v \<union> (edges H)\<^sup>* `` {t}) \<and>
   (\<forall>ts v v'. visit_each n H hk ts v = Some (Inr v') \<longrightarrow>
       visited_types v' \<subseteq> visited_types v \<union> (edges H)\<^sup>* `` set ts)"
proof (rule visit_success_induct)
  fix t v s v'
  assume "visited_types v' \<subseteq> visited_types (v\<lparr>visited_types := insert t (visited_types v), sub := s\<rparr>)
            \<union> (edges H)\<^sup>* `` set (children (H t))"
  moreover have "(edges H)\<^sup>* `` set (children (H t)) \<subseteq> (edges H)\<^sup>* `` {t}"
    by (auto simp: edges_def intro: converse_rtrancl_into_rtrancl)
  ultimately show "visited_types v' \<subseteq> visited_types v \<union> (edges H)\<^sup>* `` {t}"
    by auto
qed auto

lemma visit_invariant:
  assumes step: "\<And>t V s s'. I V s \<Longrightarrow> t \<notin> V \<Longrightarrow> dispatch hk (H t) t s = Some (Inr s') \<Longrightarrow> I (insert t V) s'"
  shows "(\<forall>t v v'. visit n H hk t v = Some (Inr v') \<longrightarrow>
            I (visited_types v) (sub v) \<longrightarrow> I (visited_types v') (sub v')) \<and>
         (\<forall>ts v v'. visit_each n H hk ts v = Some (Inr v') \<longrightarrow>
            I (visited_types v) (sub v) \<longrightarrow> I (visited_types v') (sub v'))"
  by (rule visit_success_induct) (auto dest: step)


lemma visit_returns:
  assumes fin: "finite U" and closed: "\<forall>u\<in>U. set (children (H u)) \<subseteq> U"
    and tot: "\<forall>u\<in>U. \<forall>s. dispatch hk (H u) u s \<noteq> None"
  shows "(\<forall>t v. t \<in> U \<longrightarrow> card (U - visited_types v) < n \<longrightarrow> (\<exists>r. visit n H hk t v = Some r)) \<and>
         (\<forall>ts v. set ts \<subseteq> U \<longrightarrow> card (U - visited_types v) < n \<longrightarrow> (\<exists>r. visit_each n H hk ts v = Some r))"
proof (induction n)
  case 0
  then show ?case by simp
next
  case (Suc n)
  have P: "\<exists>r. visit (Suc n) H hk t v = Some r"
    if t: "t \<in> U" and c: "card (U - visited_types v) < Suc n" for t v
  proof (cases "t \<in> visited_types v")
    case True
    then show ?thesis by (simp add: visit_unfold)
  next
    case False
    from tot t obtain d where d: "dispatch hk (H t) t (sub v) = Some d"
      by blast
    show ?thesis
    proof (cases d)
      case (Inl e)
      with False d show ?thesis by (simp add: visit_unfold)
    next
      case (Inr s)
      have "U - insert t (visited_types v) \<subset> U - visited_types v"
        using t False by auto
      with fin have "card (U - insert t (visited_types v)) < card (U - visited_types v)"
        by (intro psubset_card_mono) auto
      with c have c': "card (U - visited_types (v\<lparr>visited_types := insert t (visited_types v), sub := s\<rparr>)) < n"
        by simp
      from closed t have ch: "set (children (H t)) \<subseteq> U" by blast
      from Suc have "set ts \<subseteq> U \<Longrightarrow> card (U - visited_types w) < n \<Longrightarrow>
          \<exists>r. visit_each n H hk ts w = Some r" for ts and w :: "'a visitor"
        by blast
      from this[OF ch c'] obtain r where
        "visit_each n H hk (children (H t))
           (v\<lparr>visited_types := insert t (visited_types v), sub := s\<rparr>) = Some r"
        by blast
      with False d Inr show ?thesis by (simp add: visit_unfold)
    qed
  qed
  have Q: "set ts \<subseteq> U \<Longrightarrow> card (U - visited_types v) < Suc n \<Longrightarrow>
           \<exists>r. visit_each (Suc n) H hk ts v = Some r" for ts v
  proof (induction ts arbitrary: v)
    case Nil
    then show ?case by simp
  next
    case (Cons t ts)
    from Cons.prems have "t \<in> U" by simp
    from P[OF this Cons.prems(2)] obtain r where r: "visit (Suc n) H hk t v = Some r" by blast
    show ?case
    proof (cases r)
      case (Inl e)
      with r show ?thesis by simp
    next
      case (Inr b)
      with r visit_mono[of "Suc n" H hk] have "visited_types v \<subseteq> visited_types b" by blast
      then have "U - visited_types b \<subseteq> U - visited_types v" by blast
      with fin have "card (U - visited_types b) \<le> card (U - visited_types v)"
        by (intro card_mono) auto
      with Cons.prems have "card (U - visited_types b) < Suc n" by simp
      moreover from Cons.prems have "set ts \<subseteq> U" by simp
      ultimately obtain r' where "visit_each (Suc n) H hk ts b = Some r'"
        using Cons.IH[of b] by blast
      with r Inr show ?thesis by simp
    qed
  qed
  from P Q show ?case by blast
qed





lemma dispatch_log_hooks:
  "dispatch log_hooks nd t s = Some (Inr (if nd = TyNone then s else s @ [t]))"
  by (cases nd) (simp_all add: log_hooks_def)

lemma visit_log_once:
  "(\<forall>t v v'. visit n H log_hooks t v = Some (Inr v') \<longrightarrow>
      (distinct (sub v) \<and> set (sub v) = {u \<in> visited_types v. H u \<noteq> TyNone}) \<longrightarrow>
      (distinct (sub v') \<and> set (sub v') = {u \<in> visited_types v'. H u \<noteq> TyNone})) \<and>
   (\<forall>ts v v'. visit_each n H log_hooks ts v = Some (Inr v') \<longrightarrow>
      (distinct (sub v) \<and> set (sub v) = {u \<in> visited_types v. H u \<noteq> TyNone}) \<longrightarrow>
      (distinct (sub v') \<and> set (sub v') = {u \<in> visited_types v'. H u \<noteq> TyNone}))"
proof (rule visit_invariant[where I = "\<lambda>V s. distinct s \<and> set s = {u \<in> V. H u \<noteq> TyNone}"])
  fix t :: ty and V :: "ty set" and s s' :: "ty list"
  assume I: "distinct s \<and> set s = {u \<in> V. H u \<noteq> TyNone}" and t: "t \<notin> V"
    and d: "dispatch log_hooks (H t) t s = Some (Inr s')"
  from d have s': "s' = (if H t = TyNone then s else s @ [t])"
    by (simp add: dispatch_log_hooks)
  from I t have ts: "t \<notin> set s" by simp
  moreover from I have "distinct s" ..
  ultimately have "distinct s'" using s' by simp
  moreover from I s' t have "set s' = {u \<in> insert t V. H u \<noteq> TyNone}"
    by (cases "H t = TyNone") auto
  ultimately show "distinct s' \<and> set s' = {u \<in> insert t V. H u \<noteq> TyNone}" ..
qed


lemma log_hooks_total: "hooks_total log_hooks"
  by (simp add: hooks_total_def log_hooks_def)


lemma visit_log_no_error:
  "(\<forall>t v e. visit n H log_hooks t v \<noteq> Some (Inl e)) \<and>
   (\<forall>ts v e. visit_each n H log_hooks ts v \<noteq> Some (Inl e))"
proof (induction n)
  case 0
  have "visit_each 0 H log_hooks ts v \<noteq> Some (Inl e)" for ts v e
    by (cases ts) simp_all
  then show ?case by simp
next
  case (Suc n)
  have P: "visit (Suc n) H log_hooks t v \<noteq> Some (Inl e)" for t v e
    using Suc by (simp add: visit_unfold dispatch_log_hooks)
  have Q: "visit_each (Suc n) H log_hooks ts v \<noteq> Some (Inl e)" for ts v e
    by (induction ts arbitrary: v) (auto simp: P split: option.splits sum.splits)
  from P Q show ?case by blast
qed


lemma visit_reaches:
  assumes "visit n H hk t (TypeVisitor s) = Some (Inr v')"
  shows "visited_types v' = (edges H)\<^sup>* `` {t}"
proof
  from assms visit_within_reach[of n H hk]
  show "visited_types v' \<subseteq> (edges H)\<^sup>* `` {t}"
    by (fastforce simp: TypeVisitor_def)
  from assms visit_closes[of n H hk]
  have t: "t \<in> visited_types v'"
    and cl: "\<forall>u \<in> visited_types v'. set (children (H u)) \<subseteq> visited_types v'"
    by (fastforce simp: TypeVisitor_def)+
  have "u \<in> visited_types v'" if "(t, u) \<in> (edges H)\<^sup>*" for u
    using that
  proof (induction rule: rtrancl_induct)
    case base
    show ?case by (rule t)
  next
    case (step y z)
    then show ?case using cl by (auto simp: edges_def)
  qed
  then show "(edges H)\<^sup>* `` {t} \<subseteq> visited_types v'" by blast
qed

lemma hooks_total_dispatch: "hooks_total hk \<Longrightarrow> dispatch hk nd t s \<noteq> None"
  by (cases nd) (simp_all add: hooks_total_def)

lemma visit_returns_root:
  assumes "finite U" and "\<forall>u\<in>U. set (children (H u)) \<subseteq> U" and "t \<in> U" and "card U < n"
    and "\<forall>u\<in>U. \<forall>s. dispatch hk (H u) u s \<noteq> None"
  shows "\<exists>r. visit n H hk t v = Some r"
proof -
  from assms(1) have "card (U - visited_types v) \<le> card U"
    by (intro card_mono) auto
  with assms(4) have "card (U - visited_types v) < n" by simp
  with visit_returns[OF assms(1,2,5), of n] assms(3) show ?thesis by blast
qed



lemma TypeVisitor_hooks_total: "hooks_total TypeVisitor_hooks"
  by (simp add: hooks_total_def TypeVisitor_hooks_def)

text \<open>
  C8. \<^verbatim>\<open>TypeVisitor.visit\<close> returns on every finite type graph, cyclic or not: once the
  recursion depth allowed exceeds the number of types, the call returns whatever the
  hooks do (and the base class's hooks raise). With hooks that record each type they
  are called on, the record has no type twice, holds every visited type that the
  dispatch knows, and the visited set is exactly the set of types reachable from the
  root through attribute types, alternation members and array element types.
\<close>

theorem visit_terminates_each_type_once:
  assumes "finite U" and "\<forall>u\<in>U. set (children (H u)) \<subseteq> U" and "t \<in> U" and "card U < n"
  shows "(hooks_total hk \<longrightarrow> (\<forall>v. \<exists>r. visit n H hk t v = Some r)) \<and>
         (\<exists>e. visit n H TypeVisitor_hooks t (TypeVisitor s) = Some e) \<and>
         (\<exists>v'. visit n H log_hooks t (TypeVisitor []) = Some (Inr v') \<and>
               distinct (sub v') \<and>
               set (sub v') = {u \<in> visited_types v'. H u \<noteq> TyNone} \<and>
               visited_types v' = (edges H)\<^sup>* `` {t})"
proof (intro conjI impI allI)
  fix v assume "hooks_total hk"
  then have "\<forall>u\<in>U. \<forall>s. dispatch hk (H u) u s \<noteq> None"
    by (simp add: hooks_total_dispatch)
  with assms show "\<exists>r. visit n H hk t v = Some r" by (rule visit_returns_root)
next
  have "\<forall>u\<in>U. \<forall>s'. dispatch TypeVisitor_hooks (H u) u (s' :: 'c) \<noteq> None"
    by (simp add: hooks_total_dispatch TypeVisitor_hooks_total)
  with assms show "\<exists>e. visit n H TypeVisitor_hooks t (TypeVisitor s) = Some e"
    by (rule visit_returns_root)
next
  have "\<forall>u\<in>U. \<forall>s. dispatch log_hooks (H u) u s \<noteq> None"
    by (simp add: hooks_total_dispatch log_hooks_total)
  with assms obtain r where r: "visit n H log_hooks t (TypeVisitor []) = Some r"
    using visit_returns_root by blast
  with visit_log_no_error[of n H] obtain v' where
    v': "visit n H log_hooks t (TypeVisitor []) = Some (Inr v')"
    by (cases r) auto
  have "distinct (sub (TypeVisitor ([] :: ty list))) \<and>
        set (sub (TypeVisitor ([] :: ty list))) = {u \<in> visited_types (TypeVisitor ([] :: ty list)). H u \<noteq> TyNone}"
    by (simp add: TypeVisitor_def)
  with visit_log_once[of n H] v'
  have "distinct (sub v') \<and> set (sub v') = {u \<in> visited_types v'. H u \<noteq> TyNone}"
    by blast
  moreover from v' have "visited_types v' = (edges H)\<^sup>* `` {t}"
    by (rule visit_reaches)
  ultimately show "\<exists>v'. visit n H log_hooks t (TypeVisitor []) = Some (Inr v') \<and>
               distinct (sub v') \<and>
               set (sub v') = {u \<in> visited_types v'. H u \<noteq> TyNone} \<and>
               visited_types v' = (edges H)\<^sup>* `` {t}"
    using v' by blast
qed

lemma example_types_visit:
  "visit 5 example_types log_hooks 0 (TypeVisitor []) =
     Some (Inr \<lparr>visited_types = {3, 2, 1, 0}, sub = [0, 1, 2, 3]\<rparr>)"
  by (simp add: eval_nat_numeral visit_unfold dispatch_log_hooks example_types_def TypeVisitor_def
        del: dispatch.simps)

theorem visit_terminates_each_type_once_witness:
  "visit 5 example_types log_hooks 0 (TypeVisitor []) =
     Some (Inr \<lparr>visited_types = {3, 2, 1, 0}, sub = [0, 1, 2, 3]\<rparr>) \<and>
   (edges example_types)\<^sup>* `` {0} = {3, 2, 1, 0} \<and>
   (\<exists>e. visit 5 example_types TypeVisitor_hooks 0 (TypeVisitor ()) = Some e)"
proof -
  have "finite {0, 1, 2, 3 :: nat}" by simp
  moreover have "\<forall>u\<in>{0, 1, 2, 3 :: nat}. set (children (example_types u)) \<subseteq> {0, 1, 2, 3}"
    by (simp add: example_types_def)
  moreover have "(0 :: nat) \<in> {0, 1, 2, 3}" by simp
  moreover have "card {0, 1, 2, 3 :: nat} < 5" by simp
  ultimately have
    "(hooks_total log_hooks \<longrightarrow> (\<forall>v. \<exists>r. visit 5 example_types log_hooks 0 v = Some r)) \<and>
     (\<exists>e. visit 5 example_types TypeVisitor_hooks 0 (TypeVisitor ()) = Some e) \<and>
     (\<exists>v'. visit 5 example_types log_hooks 0 (TypeVisitor []) = Some (Inr v') \<and>
               distinct (sub v') \<and>
               set (sub v') = {u \<in> visited_types v'. example_types u \<noteq> TyNone} \<and>
               visited_types v' = (edges example_types)\<^sup>* `` {0})"
    by (rule visit_terminates_each_type_once)
  then show ?thesis
    by (auto simp: example_types_visit)
qed


section \<open>Model ids\<close>
















end
